theory Spec2Isabelle
  imports Complex_Main "HOL-Library.AList"
begin

section \<open>The caching worker (service-worker.js)\<close>

subsection \<open>Requests, responses and promises\<close>

text \<open>
  A cached entry is a request (by URL) mapped to a captured response. A request is
  its URL; a response carries the two fields the worker inspects (\<open>status\<close> and
  \<open>type\<close>) and its body. A promise either fulfils with a value or rejects.
\<close>

type_synonym request = string

datatype response_type = Basic | Cors | Default | Error | Opaque | OpaqueRedirect

record response =
  status :: nat
  rtype :: response_type
  body :: string

datatype 'a promise = Fulfilled 'a | Rejected

text \<open>
  The network answers a request with a promise. The handler tests the fulfilled value
  for presence (\<open>!fetchResponse\<close>), so the value is optional.
\<close>

type_synonym network = "request \<Rightarrow> response option promise"

subsection \<open>The cache storage of the host\<close>

text \<open>
  Modelled from the spec: the host's cache storage, which the worker only calls
  (\<open>caches.match\<close>, \<open>caches.open\<close>, \<open>caches.keys\<close>, \<open>caches.delete\<close>,
  \<open>cache.put\<close>, \<open>cache.addAll\<close>). A named cache store is a key-value store of
  request/response pairs identified by a string name; the storage lists the stores in
  the order of their creation. A put overwrites silently.
\<close>

type_synonym cache = "(request \<times> response) list"

type_synonym cache_storage = "(string \<times> cache) list"

text \<open>\<open>caches.match(request)\<close>: the first store, in creation order, that holds the request.\<close>

fun caches_match :: "cache_storage \<Rightarrow> request \<Rightarrow> response option" where
  "caches_match [] req = None"
| "caches_match ((name, c) # rest) req =
     (case map_of c req of Some r \<Rightarrow> Some r | None \<Rightarrow> caches_match rest req)"

text \<open>\<open>caches.keys()\<close>: the names of the stores.\<close>

definition caches_keys :: "cache_storage \<Rightarrow> string list" where
  "caches_keys st = map fst st"

text \<open>\<open>caches.open(name)\<close>: the store of that name, created empty when absent.\<close>

definition caches_open :: "string \<Rightarrow> cache_storage \<Rightarrow> cache_storage" where
  "caches_open name st = (if name \<in> set (caches_keys st) then st else st @ [(name, [])])"

text \<open>\<open>cache.put(request, response)\<close> on the store called \<open>name\<close>.\<close>

definition cache_put :: "string \<Rightarrow> request \<Rightarrow> response \<Rightarrow> cache_storage \<Rightarrow> cache_storage" where
  "cache_put name req resp st =
     map (\<lambda>(n, c). if n = name then (n, AList.update req resp c) else (n, c)) st"

text \<open>\<open>caches.delete(name)\<close>.\<close>

definition caches_delete :: "string \<Rightarrow> cache_storage \<Rightarrow> cache_storage" where
  "caches_delete name st = filter (\<lambda>(n, c). n \<noteq> name) st"

text \<open>A lookup in one named store (\<open>cache.match\<close> on the store called \<open>name\<close>).\<close>

definition cache_lookup :: "cache_storage \<Rightarrow> string \<Rightarrow> request \<Rightarrow> response option" where
  "cache_lookup st name req = (case map_of st name of None \<Rightarrow> None | Some c \<Rightarrow> map_of c req)"

text \<open>
  Modelled from the spec: \<open>cache.addAll\<close>, the all-or-nothing population step. Every
  path is fetched; when one fetch fails or answers without a success status the call
  rejects and stores nothing, otherwise every response is stored under its path.
\<close>

definition ok_status :: "response \<Rightarrow> bool" where
  "ok_status r \<longleftrightarrow> 200 \<le> status r \<and> status r \<le> 299"

fun fetch_all :: "network \<Rightarrow> request list \<Rightarrow> (request \<times> response) list option" where
  "fetch_all net [] = Some []"
| "fetch_all net (u # us) =
     (case net u of
        Rejected \<Rightarrow> None
      | Fulfilled None \<Rightarrow> None
      | Fulfilled (Some r) \<Rightarrow>
          (if ok_status r
           then (case fetch_all net us of None \<Rightarrow> None | Some es \<Rightarrow> Some ((u, r) # es))
           else None))"

definition cache_addAll ::
  "network \<Rightarrow> string \<Rightarrow> request list \<Rightarrow> cache_storage \<Rightarrow> unit promise \<times> cache_storage" where
  "cache_addAll net name urls st =
     (case fetch_all net urls of
        None \<Rightarrow> (Rejected, st)
      | Some es \<Rightarrow> (Fulfilled (), fold (\<lambda>(u, r). cache_put name u r) es st))"

text \<open>
  Modelled from the spec: \<open>event.respondWith\<close>. The page that issued the request is
  served the response the handler's promise fulfils with; a promise that rejects, or
  that fulfils with no response, reaches the page as a failed fetch.
\<close>

datatype caller_outcome = Served response | FailedFetch

fun respondWith :: "response option promise \<Rightarrow> caller_outcome" where
  "respondWith (Fulfilled (Some r)) = Served r"
| "respondWith (Fulfilled None) = FailedFetch"
| "respondWith Rejected = FailedFetch"

subsection \<open>The worker's constants and handlers\<close>

definition CACHE_NAME :: string where
  "CACHE_NAME = ''fire-ops-v1''"

definition urlsToCache :: "request list" where
  "urlsToCache = [''/'', ''/index.html'', ''/style.css'', ''/app.js'', ''/manifest.json'']"

text \<open>
  A deployment of the worker differs from another only in the generation tag
  \<open>CACHE_NAME\<close>, so the handlers take the tag as their first argument; the script
  under study is the instance at \<^const>\<open>CACHE_NAME\<close>.

  The install handler opens the store of the tag and adds the whole manifest; the
  promise it hands to \<open>waitUntil\<close> is the one of \<open>addAll\<close>.
\<close>

definition install_handler ::
  "string \<Rightarrow> network \<Rightarrow> cache_storage \<Rightarrow> unit promise \<times> cache_storage" where
  "install_handler cache_name net st =
     cache_addAll net cache_name urlsToCache (caches_open cache_name st)"

text \<open>
  The fetch handler is a chain of promises, so its callbacks run at different times.
  The first lookup reads the storage as it is when the event arrives (\<open>st\<close>). The
  callbacks on the network request run once that request has settled and read the
  storage as it is then (\<open>st_later\<close>): puts started by other fetches may have settled
  in between.

  The handler starts its put without awaiting it and without returning its promise:
  \<open>caches.open(CACHE_NAME).then(cache => cache.put(...))\<close> is left to settle at some
  later time. So the handler does not change the storage itself; it returns its promise
  for \<open>respondWith\<close>, the puts it has started, and the calls it made on the host in
  order.
\<close>

datatype effect = CacheMatch request | NetFetch request | CacheOpen string

datatype put_task =
  PutTask (task_store: string) (task_request: request) (task_response: response)

text \<open>A started put settles on the storage as it is at that time.\<close>

fun settle :: "put_task \<Rightarrow> cache_storage \<Rightarrow> cache_storage" where
  "settle (PutTask name req resp) st = cache_put name req resp (caches_open name st)"

definition settle_all :: "put_task list \<Rightarrow> cache_storage \<Rightarrow> cache_storage" where
  "settle_all tasks st = fold settle tasks st"

definition clone :: "response \<Rightarrow> response" where
  "clone r = r"

definition fetch_handler ::
  "string \<Rightarrow> network \<Rightarrow> cache_storage \<Rightarrow> cache_storage \<Rightarrow> request
     \<Rightarrow> response option promise \<times> put_task list \<times> effect list" where
  "fetch_handler cache_name net st st_later req =
     (case caches_match st req of
        Some response \<Rightarrow> (Fulfilled (Some response), [], [CacheMatch req])
      | None \<Rightarrow>
          (case net req of
             Fulfilled fetchResponse \<Rightarrow>
               (case fetchResponse of
                  None \<Rightarrow> (Fulfilled fetchResponse, [], [CacheMatch req, NetFetch req])
                | Some fr \<Rightarrow>
                    if status fr \<noteq> 200 \<or> rtype fr \<noteq> Basic
                    then (Fulfilled fetchResponse, [], [CacheMatch req, NetFetch req])
                    else
                      (let responseToCache = clone fr
                       in (Fulfilled fetchResponse,
                           [PutTask cache_name req responseToCache],
                           [CacheMatch req, NetFetch req, CacheOpen cache_name])))
           | Rejected \<Rightarrow>
               (Fulfilled (caches_match st_later req), [],
                [CacheMatch req, NetFetch req, CacheMatch req])))"

text \<open>
  The activate handler: every name the storage lists that is not in the whitelist is
  deleted. Deleting a store never fails, so the handler's promise always fulfils.
\<close>

definition activate_handler :: "string \<Rightarrow> cache_storage \<Rightarrow> cache_storage" where
  "activate_handler cache_name st =
     (let cacheWhitelist = [cache_name]
      in fold (\<lambda>cacheName s. if cacheName \<notin> set cacheWhitelist
                              then caches_delete cacheName s else s)
           (caches_keys st) st)"

subsection \<open>The life cycle of the worker\<close>

text \<open>
  Modelled from the spec: the host's state machine Installing, Waiting, Active. The
  install event moves an installing worker to Waiting when the promise given to
  \<open>waitUntil\<close> fulfils, and discards the worker when it rejects; the activate event
  moves a waiting worker to Active; fetch events reach an active worker only.

  The world also holds the puts that fetch handlers have started and that have not
  settled yet. Any pending put may settle at any time: between two events
  (\<open>Settle i\<close>), or while a fetch waits for the network (the indices a \<open>Fetch\<close>
  event carries, settled one after the other before the network request settles).
\<close>

datatype worker_state = Installing | Waiting | Active | Redundant

record world =
  stores :: cache_storage
  worker :: worker_state
  pending :: "put_task list"

datatype event = Install network | Activate | Fetch network "nat list" request | Settle nat

fun settle_at ::
  "nat \<Rightarrow> cache_storage \<times> put_task list \<Rightarrow> cache_storage \<times> put_task list" where
  "settle_at i (st, ps) =
     (if i < length ps then (settle (ps ! i) st, take i ps @ drop (Suc i) ps) else (st, ps))"

fun dispatch :: "string \<Rightarrow> event \<Rightarrow> world \<Rightarrow> world" where
  "dispatch cache_name (Install net) w =
     (if worker w \<noteq> Installing then w
      else (case install_handler cache_name net (stores w) of
              (Fulfilled u, st') \<Rightarrow> w\<lparr>stores := st', worker := Waiting\<rparr>
            | (Rejected, st') \<Rightarrow> w\<lparr>stores := st', worker := Redundant\<rparr>))"
| "dispatch cache_name Activate w =
     (if worker w \<noteq> Waiting then w
      else w\<lparr>stores := activate_handler cache_name (stores w), worker := Active\<rparr>)"
| "dispatch cache_name (Fetch net during req) w =
     (if worker w \<noteq> Active then w
      else (case fold settle_at during (stores w, pending w) of
              (st_later, ps) \<Rightarrow>
                (case fetch_handler cache_name net (stores w) st_later req of
                   (result, tasks, calls) \<Rightarrow> w\<lparr>stores := st_later, pending := ps @ tasks\<rparr>)))"
| "dispatch cache_name (Settle i) w =
     (if worker w \<noteq> Active then w
      else (case settle_at i (stores w, pending w) of
              (st', ps) \<Rightarrow> w\<lparr>stores := st', pending := ps\<rparr>))"

definition run :: "string \<Rightarrow> event list \<Rightarrow> world \<Rightarrow> world" where
  "run cache_name evs w = fold (dispatch cache_name) evs w"

text \<open>A worker is registered over whatever stores earlier generations left behind.\<close>

definition registered :: "cache_storage \<Rightarrow> world" where
  "registered st0 = \<lparr>stores = st0, worker = Installing, pending = []\<rparr>"

subsection \<open>Two networks and a stale store for the examples\<close>

abbreviation online :: network where
  "online \<equiv> \<lambda>u. Fulfilled (Some \<lparr>status = 200, rtype = Basic, body = u\<rparr>)"

abbreviation offline :: network where
  "offline \<equiv> \<lambda>u. Rejected"

abbreviation old_store :: cache_storage where
  "old_store \<equiv> [(''fire-ops-v0'', [(''/old.pdf'', \<lparr>status = 200, rtype = Basic, body = ''old''\<rparr>)])]"

section \<open>The page controller (app.js)\<close>

text \<open>
  The module-level variables are the fields of the state. Of the document only the
  identifiers that carry the class \<open>active\<close> are kept; the identifiers of the page
  elements the document has are a parameter \<open>ids\<close> of every operation, and the viewer
  elements the operations address are taken to be present.
\<close>

record nav_state =
  previousPage :: string
  active :: "string list"

record pdf_document =
  numPages :: int

record app_state = nav_state +
  pdfDoc :: "pdf_document option"
  currentPage :: int
  scale :: rat

definition MAX_SCALE :: rat where
  "MAX_SCALE = 3.0"

definition MIN_SCALE :: rat where
  "MIN_SCALE = 0.5"

definition SCALE_STEP :: rat where
  "SCALE_STEP = 0.25"

definition initial :: "string list \<Rightarrow> app_state" where
  "initial act = \<lparr>previousPage = ''home-page'', active = act,
                  pdfDoc = None, currentPage = 1, scale = 1.5\<rparr>"

definition showPage :: "string list \<Rightarrow> string \<Rightarrow> 'a nav_state_scheme \<Rightarrow> 'a nav_state_scheme" where
  "showPage ids pageId s =
     (let s1 = s\<lparr>active := (if pageId \<in> set ids then [pageId] else [])\<rparr>
      in if pageId \<noteq> ''viewer-page'' then s1\<lparr>previousPage := pageId\<rparr> else s1)"

text \<open>\<open>split\<close> on a separator and \<open>toLowerCase\<close> on the letters A to Z.\<close>

fun split_str :: "char \<Rightarrow> string \<Rightarrow> string list" where
  "split_str sep [] = [[]]"
| "split_str sep (c # cs) =
     (if c = sep then [] # split_str sep cs
      else (case split_str sep cs of [] \<Rightarrow> [[c]] | w # ws \<Rightarrow> (c # w) # ws))"

definition lower_char :: "char \<Rightarrow> char" where
  "lower_char c =
     (let n = (of_char c :: nat) in if 65 \<le> n \<and> n \<le> 90 then char_of (n + 32) else c)"

definition toLowerCase :: "string \<Rightarrow> string" where
  "toLowerCase s = map lower_char s"

text \<open>
  \<open>openDocument\<close> up to the call of \<open>loadPDF\<close>; the assignment to \<open>pdfDoc\<close> that
  \<open>loadPDF\<close> makes once the document has loaded is \<open>loadPDF_resolved\<close>, an event of
  its own, since it happens after \<open>openDocument\<close> has returned.
\<close>

definition openDocument :: "string list \<Rightarrow> string \<Rightarrow> app_state \<Rightarrow> app_state" where
  "openDocument ids documentPath s =
     (let s1 = showPage ids ''viewer-page'' s;
          extension = toLowerCase (last (split_str CHR ''.'' documentPath))
      in if extension = ''png'' \<or> extension = ''jpg'' \<or> extension = ''jpeg''
         then s1
         else s1\<lparr>currentPage := 1\<rparr>)"

definition loadPDF_resolved :: "pdf_document \<Rightarrow> app_state \<Rightarrow> app_state" where
  "loadPDF_resolved doc s = s\<lparr>pdfDoc := Some doc\<rparr>"

definition nextPage :: "app_state \<Rightarrow> app_state" where
  "nextPage s =
     (case pdfDoc s of
        None \<Rightarrow> s
      | Some doc \<Rightarrow> if currentPage s \<ge> numPages doc then s
                    else s\<lparr>currentPage := currentPage s + 1\<rparr>)"

definition prevPage :: "app_state \<Rightarrow> app_state" where
  "prevPage s =
     (case pdfDoc s of
        None \<Rightarrow> s
      | Some doc \<Rightarrow> if currentPage s \<le> 1 then s
                    else s\<lparr>currentPage := currentPage s - 1\<rparr>)"

definition zoomIn :: "app_state \<Rightarrow> app_state" where
  "zoomIn s =
     (case pdfDoc s of
        None \<Rightarrow> s
      | Some doc \<Rightarrow> if scale s < MAX_SCALE then s\<lparr>scale := scale s + SCALE_STEP\<rparr> else s)"

definition zoomOut :: "app_state \<Rightarrow> app_state" where
  "zoomOut s =
     (case pdfDoc s of
        None \<Rightarrow> s
      | Some doc \<Rightarrow> if scale s > MIN_SCALE then s\<lparr>scale := scale s - SCALE_STEP\<rparr> else s)"

definition closeDocument :: "string list \<Rightarrow> app_state \<Rightarrow> app_state" where
  "closeDocument ids s =
     (let s1 = s\<lparr>pdfDoc := None, currentPage := 1, scale := 1.5\<rparr>
      in showPage ids (previousPage s1) s1)"

text \<open>
  The other copy of the controller (unnamed/part\_000) keeps no page number and no
  zoom scale; its \<open>closeDocument\<close> clears the viewers and shows the previous page.
\<close>

definition closeDocument_part_000 :: "string list \<Rightarrow> 'a nav_state_scheme \<Rightarrow> 'a nav_state_scheme" where
  "closeDocument_part_000 ids s = showPage ids (previousPage s) s"

text \<open>What the user and the document loader can do to the state, in any order.\<close>

datatype action =
    ShowPage string
  | OpenDocument string
  | PdfLoaded pdf_document
  | NextPage
  | PrevPage
  | ZoomIn
  | ZoomOut
  | CloseDocument

fun perform :: "string list \<Rightarrow> action \<Rightarrow> app_state \<Rightarrow> app_state" where
  "perform ids (ShowPage pageId) s = showPage ids pageId s"
| "perform ids (OpenDocument documentPath) s = openDocument ids documentPath s"
| "perform ids (PdfLoaded doc) s = loadPDF_resolved doc s"
| "perform ids NextPage s = nextPage s"
| "perform ids PrevPage s = prevPage s"
| "perform ids ZoomIn s = zoomIn s"
| "perform ids ZoomOut s = zoomOut s"
| "perform ids CloseDocument s = closeDocument ids s"

definition session :: "string list \<Rightarrow> action list \<Rightarrow> app_state \<Rightarrow> app_state" where
  "session ids acts s = fold (perform ids) acts s"

section \<open>Properties of the caching worker\<close>

subsection \<open>The storage operations\<close>

lemma caches_keys_open:
  "caches_keys (caches_open name st)
     = (if name \<in> set (caches_keys st) then caches_keys st else caches_keys st @ [name])"
  by (simp add: caches_open_def caches_keys_def)

lemma caches_keys_put: "caches_keys (cache_put name req resp st) = caches_keys st"
  by (induction st) (auto simp: cache_put_def caches_keys_def)

lemma fold_delete_filter:
  "fold (\<lambda>cacheName s. if cacheName \<notin> set [tag] then caches_delete cacheName s else s) ns st
     = filter (\<lambda>(n, c). n = tag \<or> n \<notin> set ns) st"
proof (induction ns arbitrary: st)
  case Nil
  then show ?case by simp
next
  case (Cons a ns)
  show ?case
  proof (cases "a = tag")
    case True
    then show ?thesis using Cons.IH [of st]
      by (auto intro: filter_cong)
  next
    case False
    then show ?thesis using Cons.IH [of "caches_delete a st"]
      by (auto simp: caches_delete_def intro: filter_cong)
  qed
qed

lemma activate_handler_filter:
  "activate_handler tag st = filter (\<lambda>(n, c). n = tag) st"
  unfolding activate_handler_def Let_def fold_delete_filter
  by (rule filter_cong) (force simp: caches_keys_def)+

lemma caches_keys_activate:
  "caches_keys (activate_handler tag st) = filter (\<lambda>n. n = tag) (caches_keys st)"
  by (induction st) (auto simp: activate_handler_filter caches_keys_def)

lemma distinct_filter_eq:
  "distinct ns \<Longrightarrow> filter (\<lambda>n. n = tag) ns = (if tag \<in> set ns then [tag] else [])"
  by (induction ns) auto

lemma caches_match_single:
  "caches_keys st = [tag] \<Longrightarrow> caches_match st req = cache_lookup st tag req"
  by (cases st) (auto simp: caches_keys_def cache_lookup_def split: option.splits)

lemma caches_match_miss_lookup:
  "caches_match st req = None \<Longrightarrow> cache_lookup st name req = None"
  by (induction st) (auto simp: cache_lookup_def split: option.splits if_splits)

lemma caches_match_snoc_empty:
  "caches_match (st @ [(name, [])]) req = caches_match st req"
  by (induction st) (auto split: option.splits)

lemma caches_match_open:
  "caches_match (caches_open name st) req = caches_match st req"
  by (simp add: caches_open_def caches_match_snoc_empty)

lemma cache_lookup_put:
  "name \<in> set (caches_keys st)
     \<Longrightarrow> cache_lookup (cache_put name req resp st) name q
           = (if q = req then Some resp else cache_lookup st name q)"
  by (induction st) (force simp: cache_put_def caches_keys_def cache_lookup_def update_conv')+

lemma cache_lookup_open:
  "cache_lookup (caches_open name st) n req = cache_lookup st n req"
  by (auto simp: caches_open_def cache_lookup_def caches_keys_def map_add_def
           split: option.splits dest: map_of_SomeD weak_map_of_SomeI)

lemma name_in_open:
  "name \<in> set (caches_keys (caches_open name st))"
  by (simp add: caches_keys_open)

lemma caches_keys_fold_put:
  "caches_keys (fold (\<lambda>(u, r). cache_put name u r) es st) = caches_keys st"
  by (induction es arbitrary: st) (auto simp: caches_keys_put)

lemma caches_keys_install:
  "caches_keys (snd (install_handler tag net st)) = caches_keys (caches_open tag st)"
  by (simp add: install_handler_def cache_addAll_def caches_keys_fold_put split: option.splits)

lemma caches_keys_settle:
  "task_store t \<in> set (caches_keys st) \<Longrightarrow> caches_keys (settle t st) = caches_keys st"
  by (cases t) (simp add: caches_keys_put caches_keys_open)

lemma set_without_nth:
  "set (take i ps @ drop (Suc i) ps) \<subseteq> set ps"
  by (auto dest: in_set_takeD in_set_dropD)

lemma settle_at_keys:
  assumes "\<forall>t\<in>set ps. task_store t \<in> set (caches_keys st)"
    and "settle_at i (st, ps) = (st', ps')"
  shows "caches_keys st' = caches_keys st \<and> set ps' \<subseteq> set ps"
proof (cases "i < length ps")
  case True
  then have "ps ! i \<in> set ps" by simp
  then have "caches_keys (settle (ps ! i) st) = caches_keys st"
    using assms(1) by (simp add: caches_keys_settle)
  then show ?thesis
    using assms(2) True set_without_nth [of i ps] by auto
next
  case False
  then show ?thesis using assms(2) by simp
qed

lemma fold_settle_at_keys:
  assumes "\<forall>t\<in>set ps. task_store t \<in> set (caches_keys st)"
    and "fold settle_at js (st, ps) = (st', ps')"
  shows "caches_keys st' = caches_keys st \<and> set ps' \<subseteq> set ps"
  using assms
proof (induction js arbitrary: st ps)
  case Nil
  then show ?case by simp
next
  case (Cons j js)
  obtain st1 ps1 where s1: "settle_at j (st, ps) = (st1, ps1)"
    by (cases "settle_at j (st, ps)")
  have k1: "caches_keys st1 = caches_keys st \<and> set ps1 \<subseteq> set ps"
    using settle_at_keys [OF Cons.prems(1) s1] .
  then have "\<forall>t\<in>set ps1. task_store t \<in> set (caches_keys st1)"
    using Cons.prems(1) by auto
  moreover have "fold settle_at js (st1, ps1) = (st', ps')"
    using Cons.prems(2) s1 by simp
  ultimately have "caches_keys st' = caches_keys st1 \<and> set ps' \<subseteq> set ps1"
    by (rule Cons.IH)
  then show ?case using k1 by auto
qed

lemma fetch_handler_tasks:
  "t \<in> set (fst (snd (fetch_handler tag net st st_later req)))
     \<Longrightarrow> task_store t = tag \<and> task_request t = req"
  by (auto simp: fetch_handler_def Let_def split: option.splits promise.splits if_splits)

lemma dispatch_invariant:
  assumes "distinct (caches_keys (stores w))"
    and "worker w = Waiting \<longrightarrow> tag \<in> set (caches_keys (stores w))"
    and "worker w = Active \<longrightarrow> caches_keys (stores w) = [tag]"
    and "\<forall>t\<in>set (pending w). task_store t = tag"
  shows "distinct (caches_keys (stores (dispatch tag ev w)))
       \<and> (worker (dispatch tag ev w) = Waiting
            \<longrightarrow> tag \<in> set (caches_keys (stores (dispatch tag ev w))))
       \<and> (worker (dispatch tag ev w) = Active
            \<longrightarrow> caches_keys (stores (dispatch tag ev w)) = [tag])
       \<and> (\<forall>t\<in>set (pending (dispatch tag ev w)). task_store t = tag)"
proof (cases ev)
  case (Install net)
  obtain p st' where h: "install_handler tag net (stores w) = (p, st')"
    by (cases "install_handler tag net (stores w)")
  have k: "caches_keys st' = caches_keys (caches_open tag (stores w))"
    using caches_keys_install [of tag net "stores w"] h by simp
  show ?thesis
    using assms Install h k
    by (cases p) (auto simp: caches_keys_open)
next
  case Activate
  show ?thesis
    using assms Activate
    by (auto simp: caches_keys_activate distinct_filter_eq)
next
  case (Fetch net during req)
  show ?thesis
  proof (cases "worker w = Active")
    case True
    obtain st_later ps where f: "fold settle_at during (stores w, pending w) = (st_later, ps)"
      by (cases "fold settle_at during (stores w, pending w)")
    obtain result tasks calls
      where h: "fetch_handler tag net (stores w) st_later req = (result, tasks, calls)"
      by (cases "fetch_handler tag net (stores w) st_later req")
    have "\<forall>t\<in>set (pending w). task_store t \<in> set (caches_keys (stores w))"
      using assms(3,4) True by simp
    then have k: "caches_keys st_later = caches_keys (stores w) \<and> set ps \<subseteq> set (pending w)"
      using f by (rule fold_settle_at_keys)
    have "\<forall>t\<in>set tasks. task_store t = tag"
      using fetch_handler_tasks [of _ tag net "stores w" st_later req] h by simp
    then have "\<forall>t\<in>set (ps @ tasks). task_store t = tag"
      using k assms(4) by auto
    then show ?thesis
      using assms True Fetch f h k by simp
  next
    case False
    then show ?thesis using assms Fetch by simp
  qed
next
  case (Settle i)
  show ?thesis
  proof (cases "worker w = Active")
    case True
    obtain st' ps where f: "settle_at i (stores w, pending w) = (st', ps)"
      by (cases "settle_at i (stores w, pending w)")
    have "\<forall>t\<in>set (pending w). task_store t \<in> set (caches_keys (stores w))"
      using assms(3,4) True by simp
    then have k: "caches_keys st' = caches_keys (stores w) \<and> set ps \<subseteq> set (pending w)"
      using f by (rule settle_at_keys)
    then have "\<forall>t\<in>set ps. task_store t = tag"
      using assms(4) by auto
    then show ?thesis
      using assms True Settle f k by simp
  next
    case False
    then show ?thesis using assms Settle by simp
  qed
qed

lemma run_invariant:
  assumes "distinct (caches_keys (stores w))"
    and "worker w = Waiting \<longrightarrow> tag \<in> set (caches_keys (stores w))"
    and "worker w = Active \<longrightarrow> caches_keys (stores w) = [tag]"
    and "\<forall>t\<in>set (pending w). task_store t = tag"
  shows "distinct (caches_keys (stores (run tag evs w)))
       \<and> (worker (run tag evs w) = Waiting
            \<longrightarrow> tag \<in> set (caches_keys (stores (run tag evs w))))
       \<and> (worker (run tag evs w) = Active
            \<longrightarrow> caches_keys (stores (run tag evs w)) = [tag])
       \<and> (\<forall>t\<in>set (pending (run tag evs w)). task_store t = tag)"
  using assms
proof (induction evs arbitrary: w)
  case Nil
  then show ?case by (simp add: run_def)
next
  case (Cons ev evs)
  have "run tag (ev # evs) w = run tag evs (dispatch tag ev w)"
    by (simp add: run_def)
  moreover note dispatch_invariant [OF Cons.prems, of ev]
  ultimately show ?case
    using Cons.IH [of "dispatch tag ev w"] by simp
qed

lemma active_single_store:
  assumes "distinct (caches_keys st0)" and "worker (run tag evs (registered st0)) = Active"
  shows "caches_keys (stores (run tag evs (registered st0))) = [tag]"
  using run_invariant [of "registered st0" tag evs] assms
  by (simp add: registered_def)

subsection \<open>Cache-first on a hit\<close>

text \<open>
  C1. Fetch events reach the worker only once it is Active, and activation has left
  the store of the current generation as the only store. For every fetch the worker
  intercepts, when the request is found in the current store, the handler returns that
  cached response, starts no put (so it leaves the storage as it is), and its only
  call on the host is the lookup: no network request is made.
\<close>

theorem fetch_hit_is_cache_first:
  assumes "distinct (caches_keys st0)"
    and "w = run cache_name evs (registered st0)"
    and "worker w = Active"
    and "cache_lookup (stores w) cache_name req = Some r"
  shows "fetch_handler cache_name net (stores w) st_later req
           = (Fulfilled (Some r), [], [CacheMatch req])
       \<and> settle_all (fst (snd (fetch_handler cache_name net (stores w) st_later req))) (stores w)
           = stores w"
proof -
  have "caches_keys (stores w) = [cache_name]"
    using assms active_single_store by simp
  then have "caches_match (stores w) req = Some r"
    using assms(4) by (simp add: caches_match_single)
  then show ?thesis
    by (simp add: fetch_handler_def settle_all_def)
qed

theorem fetch_hit_is_cache_first_witness:
  "distinct (caches_keys old_store)
   \<and> worker (run CACHE_NAME
        [Install online, Activate, Fetch online [] ''/doc.pdf'', Settle 0]
        (registered old_store)) = Active
   \<and> cache_lookup (stores (run CACHE_NAME
        [Install online, Activate, Fetch online [] ''/doc.pdf'', Settle 0]
        (registered old_store))) CACHE_NAME ''/index.html''
      = Some \<lparr>status = 200, rtype = Basic, body = ''/index.html''\<rparr>
   \<and> fetch_handler CACHE_NAME offline
        (stores (run CACHE_NAME
           [Install online, Activate, Fetch online [] ''/doc.pdf'', Settle 0]
           (registered old_store)))
        old_store ''/index.html''
      = (Fulfilled (Some \<lparr>status = 200, rtype = Basic, body = ''/index.html''\<rparr>), [],
         [CacheMatch ''/index.html''])"
proof -
  let ?w = "run CACHE_NAME
        [Install online, Activate, Fetch online [] ''/doc.pdf'', Settle 0]
        (registered old_store)"
  have d: "distinct (caches_keys old_store)"
    by code_simp
  have a: "worker ?w = Active"
    by code_simp
  have l: "cache_lookup (stores ?w) CACHE_NAME ''/index.html''
             = Some \<lparr>status = 200, rtype = Basic, body = ''/index.html''\<rparr>"
    by code_simp
  show ?thesis
    using d a l fetch_hit_is_cache_first [OF d refl a l, of offline old_store]
    by simp
qed

subsection \<open>What a miss stores\<close>

text \<open>
  C2. For every fetch that misses the cache and whose network request is answered,
  the answer is handed to the caller as it is. Once the puts the handler has started
  have settled, the current store holds an entry for the request if and only if the
  response is present, has status 200 and is of type basic; the entry is then that
  response, put under the original request, on whatever storage the put settles. In
  every other case no put is started and the storage is left exactly as it was.
\<close>

theorem fetch_miss_caches_iff_valid:
  assumes "caches_match st req = None"
    and "net req = Fulfilled fetchResponse"
    and "fetch_handler cache_name net st st_later req = (result, tasks, calls)"
    and "st' = settle_all tasks st"
  shows "result = Fulfilled fetchResponse
       \<and> (cache_lookup st' cache_name req \<noteq> None
            \<longleftrightarrow> (\<exists>r. fetchResponse = Some r \<and> status r = 200 \<and> rtype r = Basic))
       \<and> ((\<exists>r. fetchResponse = Some r \<and> status r = 200 \<and> rtype r = Basic)
            \<longrightarrow> cache_lookup st' cache_name req = fetchResponse
              \<and> cache_lookup (settle_all tasks st_settle) cache_name req = fetchResponse)
       \<and> (\<not> (\<exists>r. fetchResponse = Some r \<and> status r = 200 \<and> rtype r = Basic)
            \<longrightarrow> tasks = [] \<and> st' = st)"
proof (cases "\<exists>r. fetchResponse = Some r \<and> status r = 200 \<and> rtype r = Basic")
  case True
  then obtain r where r: "fetchResponse = Some r" "status r = 200" "rtype r = Basic"
    by blast
  have tasks: "tasks = [PutTask cache_name req r]"
    and res: "result = Fulfilled fetchResponse"
    using assms r by (simp_all add: fetch_handler_def clone_def)
  have "cache_lookup (settle_all tasks sb) cache_name req = Some r" for sb
    by (simp add: tasks settle_all_def cache_lookup_put name_in_open)
  then show ?thesis
    using True r res assms(4) by simp
next
  case False
  have before: "cache_lookup st cache_name req = None"
    using assms(1) by (rule caches_match_miss_lookup)
  have "tasks = [] \<and> result = Fulfilled fetchResponse"
    using assms False by (auto simp: fetch_handler_def split: option.splits if_splits)
  then show ?thesis
    using False before assms(4) by (auto simp: settle_all_def)
qed

theorem fetch_miss_caches_iff_valid_witness:
  "caches_match [(CACHE_NAME, [])] ''/doc.pdf'' = None
   \<and> fst (fetch_handler CACHE_NAME online [(CACHE_NAME, [])] [(CACHE_NAME, [])] ''/doc.pdf'')
      = Fulfilled (Some \<lparr>status = 200, rtype = Basic, body = ''/doc.pdf''\<rparr>)
   \<and> cache_lookup
        (settle_all
           (fst (snd (fetch_handler CACHE_NAME online [(CACHE_NAME, [])] [(CACHE_NAME, [])]
                        ''/doc.pdf'')))
           [(CACHE_NAME, [])])
        CACHE_NAME ''/doc.pdf''
      = Some \<lparr>status = 200, rtype = Basic, body = ''/doc.pdf''\<rparr>
   \<and> fst (snd (fetch_handler CACHE_NAME
        (\<lambda>u. Fulfilled (Some \<lparr>status = 0, rtype = Opaque, body = []\<rparr>))
        [(CACHE_NAME, [])] [(CACHE_NAME, [])] ''/doc.pdf''))
      = []"
proof -
  let ?st = "[(CACHE_NAME, [])]"
  let ?cdn = "\<lambda>u :: request. Fulfilled (Some \<lparr>status = 0, rtype = Opaque, body = []\<rparr>)"
  have miss: "caches_match ?st ''/doc.pdf'' = None"
    by simp
  have n1: "online ''/doc.pdf'' = Fulfilled (Some \<lparr>status = 200, rtype = Basic, body = ''/doc.pdf''\<rparr>)"
    by simp
  have n2: "?cdn ''/doc.pdf'' = Fulfilled (Some \<lparr>status = 0, rtype = Opaque, body = []\<rparr>)"
    by simp
  have p1: "fetch_handler CACHE_NAME online ?st ?st ''/doc.pdf''
      = (fst (fetch_handler CACHE_NAME online ?st ?st ''/doc.pdf''),
         fst (snd (fetch_handler CACHE_NAME online ?st ?st ''/doc.pdf'')),
         snd (snd (fetch_handler CACHE_NAME online ?st ?st ''/doc.pdf'')))"
    by simp
  have p2: "fetch_handler CACHE_NAME ?cdn ?st ?st ''/doc.pdf''
      = (fst (fetch_handler CACHE_NAME ?cdn ?st ?st ''/doc.pdf''),
         fst (snd (fetch_handler CACHE_NAME ?cdn ?st ?st ''/doc.pdf'')),
         snd (snd (fetch_handler CACHE_NAME ?cdn ?st ?st ''/doc.pdf'')))"
    by simp
  show ?thesis
    using miss fetch_miss_caches_iff_valid [OF miss n1 p1 refl, of ?st]
      fetch_miss_caches_iff_valid [OF miss n2 p2 refl, of ?st]
    by simp
qed

subsection \<open>Activation purges the stale stores\<close>

lemma cache_lookup_absent:
  "name \<notin> set (caches_keys st) \<Longrightarrow> cache_lookup st name req = None"
proof -
  assume "name \<notin> set (caches_keys st)"
  then have "map_of st name = None"
    by (simp add: map_of_eq_None_iff caches_keys_def)
  then show ?thesis
    by (simp add: cache_lookup_def)
qed

lemma cache_lookup_filter:
  "cache_lookup (filter (\<lambda>(n, c). n = tag) st) tag req = cache_lookup st tag req"
  by (induction st) (auto simp: cache_lookup_def)

text \<open>
  C3. Activation deletes every store whose name is not the current generation tag.
  After the activation of generation G2 over a storage of distinctly named stores, for
  every generation G1 other than G2: no store named G1 is listed, no entry of G1's
  store can be looked up, whatever a lookup over the whole storage finds is an entry of
  G2's own store, and at most one store (the current one) remains.
\<close>

theorem activate_purges_stale:
  assumes "distinct (caches_keys st)" and "G1 \<noteq> G2"
    and "st' = activate_handler G2 st"
  shows "G1 \<notin> set (caches_keys st')
       \<and> cache_lookup st' G1 req = None
       \<and> caches_match st' req = cache_lookup st G2 req
       \<and> set (caches_keys st') \<subseteq> {G2}
       \<and> length st' \<le> 1"
proof -
  have keys: "caches_keys st' = (if G2 \<in> set (caches_keys st) then [G2] else [])"
    using assms by (simp add: caches_keys_activate distinct_filter_eq)
  have gone: "G1 \<notin> set (caches_keys st')"
    using keys assms(2) by auto
  have len: "length st' \<le> 1"
    using keys by (auto simp: caches_keys_def dest: arg_cong [where f = length])
  have retr: "caches_match st' req = cache_lookup st G2 req"
  proof (cases "G2 \<in> set (caches_keys st)")
    case True
    then have "caches_keys st' = [G2]" using keys by simp
    then have "caches_match st' req = cache_lookup st' G2 req"
      by (rule caches_match_single)
    then show ?thesis
      using assms(3) by (simp add: activate_handler_filter cache_lookup_filter)
  next
    case False
    then have "st' = []" using keys by (simp add: caches_keys_def)
    then show ?thesis using False by (simp add: cache_lookup_absent)
  qed
  show ?thesis
    using gone len retr keys by (auto simp: cache_lookup_absent)
qed

theorem activate_purges_stale_witness:
  "distinct (caches_keys (old_store @ [(CACHE_NAME, [(''/'', \<lparr>status = 200, rtype = Basic, body = ''/''\<rparr>)])]))
   \<and> ''fire-ops-v0'' \<noteq> CACHE_NAME
   \<and> ''fire-ops-v0'' \<notin> set (caches_keys (activate_handler CACHE_NAME
        (old_store @ [(CACHE_NAME, [(''/'', \<lparr>status = 200, rtype = Basic, body = ''/''\<rparr>)])])))
   \<and> caches_match (activate_handler CACHE_NAME
        (old_store @ [(CACHE_NAME, [(''/'', \<lparr>status = 200, rtype = Basic, body = ''/''\<rparr>)])])) ''/old.pdf''
      = None
   \<and> length (activate_handler CACHE_NAME
        (old_store @ [(CACHE_NAME, [(''/'', \<lparr>status = 200, rtype = Basic, body = ''/''\<rparr>)])])) \<le> 1"
proof -
  let ?st = "old_store @ [(CACHE_NAME, [(''/'', \<lparr>status = 200, rtype = Basic, body = ''/''\<rparr>)])]"
  have d: "distinct (caches_keys ?st)"
    by code_simp
  have g: "''fire-ops-v0'' \<noteq> CACHE_NAME"
    by code_simp
  have l: "cache_lookup ?st CACHE_NAME ''/old.pdf'' = None"
    by code_simp
  show ?thesis
    using d g l activate_purges_stale [OF d g refl, of "''/old.pdf''"]
    by simp
qed

subsection \<open>Offline fallback\<close>

text \<open>
  C4. For every fetch whose cache lookup misses and whose network request then fails,
  the handler looks the same request up a second time, in the storage as it is once
  the network request has failed, and answers with what that lookup finds. When the
  second lookup misses as well, the caller sees a failed fetch; when it hits (a put
  for the request has settled in the meantime), the caller is served that response.
\<close>

theorem fetch_offline_second_lookup:
  assumes "caches_match st req = None"
    and "net req = Rejected"
  shows "fetch_handler cache_name net st st_later req
           = (Fulfilled (caches_match st_later req), [],
              [CacheMatch req, NetFetch req, CacheMatch req])
       \<and> (caches_match st_later req = None
            \<longrightarrow> respondWith (fst (fetch_handler cache_name net st st_later req)) = FailedFetch)
       \<and> (\<forall>r. caches_match st_later req = Some r
            \<longrightarrow> respondWith (fst (fetch_handler cache_name net st st_later req)) = Served r)"
  using assms by (simp add: fetch_handler_def)

theorem fetch_offline_second_lookup_witness:
  "caches_match [(CACHE_NAME, [])] ''/doc.pdf'' = None
   \<and> respondWith (fst (fetch_handler CACHE_NAME offline [(CACHE_NAME, [])] [(CACHE_NAME, [])]
        ''/doc.pdf''))
      = FailedFetch
   \<and> caches_match
        (settle (PutTask CACHE_NAME ''/doc.pdf'' \<lparr>status = 200, rtype = Basic, body = ''pdf''\<rparr>)
           [(CACHE_NAME, [])])
        ''/doc.pdf''
      = Some \<lparr>status = 200, rtype = Basic, body = ''pdf''\<rparr>
   \<and> respondWith (fst (fetch_handler CACHE_NAME offline [(CACHE_NAME, [])]
        (settle (PutTask CACHE_NAME ''/doc.pdf'' \<lparr>status = 200, rtype = Basic, body = ''pdf''\<rparr>)
           [(CACHE_NAME, [])])
        ''/doc.pdf''))
      = Served \<lparr>status = 200, rtype = Basic, body = ''pdf''\<rparr>"
proof -
  let ?st = "[(CACHE_NAME, [])]"
  let ?later = "settle (PutTask CACHE_NAME ''/doc.pdf''
                  \<lparr>status = 200, rtype = Basic, body = ''pdf''\<rparr>) ?st"
  have miss: "caches_match ?st ''/doc.pdf'' = None"
    by simp
  have off: "offline ''/doc.pdf'' = Rejected"
    by simp
  have hit: "caches_match ?later ''/doc.pdf''
               = Some \<lparr>status = 200, rtype = Basic, body = ''pdf''\<rparr>"
    by code_simp
  show ?thesis
    using miss hit
      fetch_offline_second_lookup [OF miss off, of CACHE_NAME ?st]
      fetch_offline_second_lookup [OF miss off, of CACHE_NAME ?later]
    by simp
qed

subsection \<open>Install is all or nothing\<close>

lemma redundant_stays:
  "worker w = Redundant \<Longrightarrow> run tag evs w = w"
proof (induction evs)
  case Nil
  then show ?case by (simp add: run_def)
next
  case (Cons ev evs)
  have "dispatch tag ev w = w"
    using Cons.prems by (cases ev) simp_all
  then show ?case using Cons by (simp add: run_def)
qed

lemma fetch_all_fails:
  "u \<in> set us \<Longrightarrow> \<forall>r. net u = Fulfilled (Some r) \<longrightarrow> \<not> ok_status r \<Longrightarrow> fetch_all net us = None"
  by (induction us) (auto split: promise.splits option.splits)

text \<open>
  C5. When the fetch of one manifest entry fails (the request is rejected, answers
  nothing, or answers without a success status), the install handler's promise
  rejects, the worker is discarded instead of waiting, no later event makes it Active,
  and no store has gained an entry.
\<close>

theorem install_all_or_nothing:
  assumes "u \<in> set urlsToCache"
    and "net u = Rejected \<or> net u = Fulfilled None
         \<or> (\<exists>r. net u = Fulfilled (Some r) \<and> \<not> ok_status r)"
    and "w = dispatch cache_name (Install net) (registered st)"
  shows "fst (install_handler cache_name net st) = Rejected
       \<and> worker w = Redundant
       \<and> worker (run cache_name evs w) \<noteq> Active
       \<and> cache_lookup (stores w) name req = cache_lookup st name req"
proof -
  have "\<forall>r. net u = Fulfilled (Some r) \<longrightarrow> \<not> ok_status r"
    using assms(2) by auto
  then have none: "fetch_all net urlsToCache = None"
    using assms(1) by (rule fetch_all_fails [rotated])
  then have h: "install_handler cache_name net st = (Rejected, caches_open cache_name st)"
    by (simp add: install_handler_def cache_addAll_def)
  then have w: "worker w = Redundant" "stores w = caches_open cache_name st"
    using assms(3) by (simp_all add: registered_def)
  then have "run cache_name evs w = w"
    by (simp add: redundant_stays)
  then show ?thesis
    using h w by (simp add: cache_lookup_open)
qed

theorem install_all_or_nothing_witness:
  "''/style.css'' \<in> set urlsToCache
   \<and> fst (install_handler CACHE_NAME
        (\<lambda>u. if u = ''/style.css'' then Rejected else online u) old_store) = Rejected
   \<and> worker (dispatch CACHE_NAME
        (Install (\<lambda>u. if u = ''/style.css'' then Rejected else online u))
        (registered old_store)) = Redundant
   \<and> worker (run CACHE_NAME [Activate, Fetch online [] ''/'']
        (dispatch CACHE_NAME
          (Install (\<lambda>u. if u = ''/style.css'' then Rejected else online u))
          (registered old_store))) \<noteq> Active
   \<and> cache_lookup (stores (dispatch CACHE_NAME
        (Install (\<lambda>u. if u = ''/style.css'' then Rejected else online u))
        (registered old_store))) CACHE_NAME ''/''
      = None"
proof -
  let ?net = "\<lambda>u. if u = ''/style.css'' then Rejected else online u"
  have u: "''/style.css'' \<in> set urlsToCache"
    by (simp add: urlsToCache_def)
  have f: "?net ''/style.css'' = Rejected \<or> ?net ''/style.css'' = Fulfilled None
           \<or> (\<exists>r. ?net ''/style.css'' = Fulfilled (Some r) \<and> \<not> ok_status r)"
    by simp
  have l: "cache_lookup old_store CACHE_NAME ''/'' = None"
    by code_simp
  show ?thesis
    using u l install_all_or_nothing [where u = "''/style.css''" and net = ?net
        and cache_name = CACHE_NAME and st = old_store
        and evs = "[Activate, Fetch online [] ''/'']" and name = CACHE_NAME and req = "''/''",
        OF u f refl]
    by simp
qed

subsection \<open>A cached response is served again\<close>

lemma caches_match_put_keeps_hit:
  "caches_match st req \<noteq> None \<Longrightarrow> caches_match (cache_put name q resp st) req \<noteq> None"
  by (induction st) (auto simp: cache_put_def update_conv' split: option.splits)

lemma caches_match_put_hit:
  "name \<in> set (caches_keys st) \<Longrightarrow> caches_match (cache_put name req resp st) req \<noteq> None"
  by (induction st) (force simp: cache_put_def caches_keys_def update_conv' split: option.splits)+

lemma settle_keeps_hit:
  "caches_match st req \<noteq> None \<Longrightarrow> caches_match (settle t st) req \<noteq> None"
  by (cases t) (simp add: caches_match_put_keeps_hit caches_match_open)

lemma settle_makes_hit:
  "task_request t = req \<Longrightarrow> caches_match (settle t st) req \<noteq> None"
  by (cases t) (simp add: caches_match_put_hit name_in_open)

lemma settle_at_covered:
  assumes "(\<exists>t\<in>set ps. task_request t = req) \<or> caches_match st req \<noteq> None"
    and "settle_at i (st, ps) = (st', ps')"
  shows "(\<exists>t\<in>set ps'. task_request t = req) \<or> caches_match st' req \<noteq> None"
proof (cases "i < length ps")
  case False
  then show ?thesis using assms by simp
next
  case True
  then have st': "st' = settle (ps ! i) st" and ps': "ps' = take i ps @ drop (Suc i) ps"
    using assms(2) by simp_all
  show ?thesis
  proof (cases "caches_match st req \<noteq> None")
    case True
    then show ?thesis by (simp add: st' settle_keeps_hit)
  next
    case False
    then obtain t where t: "t \<in> set ps" "task_request t = req"
      using assms(1) by blast
    have "ps = take i ps @ ps ! i # drop (Suc i) ps"
      using \<open>i < length ps\<close> by (rule id_take_nth_drop)
    then have "set ps = set ps' \<union> {ps ! i}"
      unfolding ps' by (metis Un_insert_right set_append list.simps(15) sup_bot.right_neutral)
    then have "t \<in> set ps' \<or> t = ps ! i"
      using t(1) by auto
    then show ?thesis
      using t(2) by (auto simp: st' settle_makes_hit)
  qed
qed

lemma fold_settle_at_covered:
  assumes "(\<exists>t\<in>set ps. task_request t = req) \<or> caches_match st req \<noteq> None"
    and "fold settle_at js (st, ps) = (st', ps')"
  shows "(\<exists>t\<in>set ps'. task_request t = req) \<or> caches_match st' req \<noteq> None"
  using assms
proof (induction js arbitrary: st ps)
  case Nil
  then show ?case by simp
next
  case (Cons j js)
  obtain st1 ps1 where s1: "settle_at j (st, ps) = (st1, ps1)"
    by (cases "settle_at j (st, ps)")
  have "(\<exists>t\<in>set ps1. task_request t = req) \<or> caches_match st1 req \<noteq> None"
    using Cons.prems(1) s1 by (rule settle_at_covered)
  moreover have "fold settle_at js (st1, ps1) = (st', ps')"
    using Cons.prems(2) s1 by simp
  ultimately show ?case by (rule Cons.IH)
qed

lemma dispatch_covered:
  assumes "worker w = Active"
    and "(\<exists>t\<in>set (pending w). task_request t = req) \<or> caches_match (stores w) req \<noteq> None"
  shows "worker (dispatch tag ev w) = Active
       \<and> ((\<exists>t\<in>set (pending (dispatch tag ev w)). task_request t = req)
            \<or> caches_match (stores (dispatch tag ev w)) req \<noteq> None)"
proof (cases ev)
  case (Install net)
  then show ?thesis using assms by simp
next
  case Activate
  then show ?thesis using assms by simp
next
  case (Fetch net during req')
  obtain st_later ps where f: "fold settle_at during (stores w, pending w) = (st_later, ps)"
    by (cases "fold settle_at during (stores w, pending w)")
  obtain result tasks calls
    where h: "fetch_handler tag net (stores w) st_later req' = (result, tasks, calls)"
    by (cases "fetch_handler tag net (stores w) st_later req'")
  have "(\<exists>t\<in>set ps. task_request t = req) \<or> caches_match st_later req \<noteq> None"
    using assms(2) f by (rule fold_settle_at_covered)
  then have "(\<exists>t\<in>set (ps @ tasks). task_request t = req) \<or> caches_match st_later req \<noteq> None"
    by auto
  then show ?thesis
    using assms(1) Fetch f h by simp
next
  case (Settle i)
  obtain st' ps where f: "settle_at i (stores w, pending w) = (st', ps)"
    by (cases "settle_at i (stores w, pending w)")
  have "(\<exists>t\<in>set ps. task_request t = req) \<or> caches_match st' req \<noteq> None"
    using assms(2) f by (rule settle_at_covered)
  then show ?thesis
    using assms(1) Settle f by simp
qed

lemma run_covered:
  assumes "worker w = Active"
    and "(\<exists>t\<in>set (pending w). task_request t = req) \<or> caches_match (stores w) req \<noteq> None"
  shows "worker (run tag evs w) = Active
       \<and> ((\<exists>t\<in>set (pending (run tag evs w)). task_request t = req)
            \<or> caches_match (stores (run tag evs w)) req \<noteq> None)"
  using assms
proof (induction evs arbitrary: w)
  case Nil
  then show ?case by (simp add: run_def)
next
  case (Cons ev evs)
  have "run tag (ev # evs) w = run tag evs (dispatch tag ev w)"
    by (simp add: run_def)
  moreover note dispatch_covered [OF Cons.prems, of tag ev]
  ultimately show ?case
    using Cons.IH [of "dispatch tag ev w"] by simp
qed

text \<open>
  C6 (as amended). When a fetch misses the cache and the network answers with a
  response of status 200 and type basic, then after any further events of the same
  session and generation, once no put for that request is pending any more, a fetch of
  the same request is answered from the cache: it starts no put and its only call on
  the host is the lookup, whatever the network would say.
\<close>

theorem fetch_served_again_once_settled:
  assumes "worker w = Active"
    and "caches_match (stores w) req = None"
    and "net req = Fulfilled (Some r)"
    and "status r = 200" and "rtype r = Basic"
    and "w2 = run cache_name evs (dispatch cache_name (Fetch net during req) w)"
    and "\<forall>t\<in>set (pending w2). task_request t \<noteq> req"
  shows "\<exists>r'. fetch_handler cache_name net2 (stores w2) st_later req
                = (Fulfilled (Some r'), [], [CacheMatch req])"
proof -
  let ?w1 = "dispatch cache_name (Fetch net during req) w"
  obtain st1 ps where f: "fold settle_at during (stores w, pending w) = (st1, ps)"
    by (cases "fold settle_at during (stores w, pending w)")
  have h: "fetch_handler cache_name net (stores w) st1 req
             = (Fulfilled (Some r), [PutTask cache_name req r],
                [CacheMatch req, NetFetch req, CacheOpen cache_name])"
    using assms(2-5) by (simp add: fetch_handler_def clone_def)
  have "pending ?w1 = ps @ [PutTask cache_name req r]" and a1: "worker ?w1 = Active"
    using assms(1) f h by simp_all
  then have "\<exists>t\<in>set (pending ?w1). task_request t = req"
    by simp
  then have "(\<exists>t\<in>set (pending w2). task_request t = req)
           \<or> caches_match (stores w2) req \<noteq> None"
    using run_covered [OF a1, of req cache_name evs] assms(6) by simp
  then have "caches_match (stores w2) req \<noteq> None"
    using assms(7) by blast
  then obtain r' where "caches_match (stores w2) req = Some r'"
    by blast
  then show ?thesis
    by (simp add: fetch_handler_def)
qed

theorem fetch_served_again_once_settled_witness:
  "worker \<lparr>stores = [(CACHE_NAME, [])], worker = Active, pending = []\<rparr> = Active
   \<and> caches_match [(CACHE_NAME, [])] ''/doc.pdf'' = None
   \<and> pending (run CACHE_NAME [Fetch online [] ''/map.png'', Settle 1, Settle 0]
        (dispatch CACHE_NAME (Fetch online [] ''/doc.pdf'')
           \<lparr>stores = [(CACHE_NAME, [])], worker = Active, pending = []\<rparr>)) = []
   \<and> (\<exists>r'. fetch_handler CACHE_NAME offline
        (stores (run CACHE_NAME [Fetch online [] ''/map.png'', Settle 1, Settle 0]
           (dispatch CACHE_NAME (Fetch online [] ''/doc.pdf'')
              \<lparr>stores = [(CACHE_NAME, [])], worker = Active, pending = []\<rparr>)))
        [] ''/doc.pdf''
      = (Fulfilled (Some r'), [], [CacheMatch ''/doc.pdf'']))"
proof -
  let ?w = "\<lparr>stores = [(CACHE_NAME, [])], worker = Active, pending = []\<rparr>"
  let ?w2 = "run CACHE_NAME [Fetch online [] ''/map.png'', Settle 1, Settle 0]
        (dispatch CACHE_NAME (Fetch online [] ''/doc.pdf'') ?w)"
  have a: "worker ?w = Active"
    by simp
  have miss: "caches_match (stores ?w) ''/doc.pdf'' = None"
    by simp
  have n: "online ''/doc.pdf'' = Fulfilled (Some \<lparr>status = 200, rtype = Basic, body = ''/doc.pdf''\<rparr>)"
    by simp
  have s: "status \<lparr>status = 200, rtype = Basic, body = ''/doc.pdf''\<rparr> = 200"
    and t: "rtype \<lparr>status = 200, rtype = Basic, body = ''/doc.pdf''\<rparr> = Basic"
    by simp_all
  have p: "pending ?w2 = []"
    by code_simp
  then have q: "\<forall>t\<in>set (pending ?w2). task_request t \<noteq> ''/doc.pdf''"
    by simp
  show ?thesis
    using a miss p fetch_served_again_once_settled [where ?net2.0 = offline
        and st_later = "[]", OF a miss n s t refl q]
    by simp
qed

text \<open>
  The claim as written speaks of every response with a success status. The handler
  stores a response only when its status is exactly 200: a basic response with the
  success status 204 is handed to the caller and not stored, and with no put pending
  the next identical fetch goes to the network again.
\<close>

theorem fetch_success_status_not_cached_counterexample:
  "ok_status \<lparr>status = 204, rtype = Basic, body = []\<rparr>
   \<and> rtype \<lparr>status = 204, rtype = Basic, body = []\<rparr> = Basic
   \<and> fst (fetch_handler CACHE_NAME
        (\<lambda>u. Fulfilled (Some \<lparr>status = 204, rtype = Basic, body = []\<rparr>))
        [(CACHE_NAME, [])] [(CACHE_NAME, [])] ''/ping'')
      = Fulfilled (Some \<lparr>status = 204, rtype = Basic, body = []\<rparr>)
   \<and> pending (dispatch CACHE_NAME
        (Fetch (\<lambda>u. Fulfilled (Some \<lparr>status = 204, rtype = Basic, body = []\<rparr>)) [] ''/ping'')
        \<lparr>stores = [(CACHE_NAME, [])], worker = Active, pending = []\<rparr>) = []
   \<and> snd (snd (fetch_handler CACHE_NAME
        (\<lambda>u. Fulfilled (Some \<lparr>status = 204, rtype = Basic, body = []\<rparr>))
        (stores (dispatch CACHE_NAME
           (Fetch (\<lambda>u. Fulfilled (Some \<lparr>status = 204, rtype = Basic, body = []\<rparr>)) [] ''/ping'')
           \<lparr>stores = [(CACHE_NAME, [])], worker = Active, pending = []\<rparr>))
        [] ''/ping''))
      = [CacheMatch ''/ping'', NetFetch ''/ping'']"
  by code_simp

text \<open>
  The put is started, not awaited: while it is pending, an identical fetch misses the
  cache and goes to the network as well.
\<close>

lemma fetch_before_put_settles:
  "pending (dispatch CACHE_NAME (Fetch online [] ''/doc.pdf'')
      \<lparr>stores = [(CACHE_NAME, [])], worker = Active, pending = []\<rparr>)
     = [PutTask CACHE_NAME ''/doc.pdf'' \<lparr>status = 200, rtype = Basic, body = ''/doc.pdf''\<rparr>]
   \<and> snd (snd (fetch_handler CACHE_NAME online
        (stores (dispatch CACHE_NAME (Fetch online [] ''/doc.pdf'')
           \<lparr>stores = [(CACHE_NAME, [])], worker = Active, pending = []\<rparr>))
        [] ''/doc.pdf''))
      = [CacheMatch ''/doc.pdf'', NetFetch ''/doc.pdf'', CacheOpen CACHE_NAME]"
  by code_simp

subsection \<open>The manifest after a successful install\<close>

lemma fetch_all_entries:
  "fetch_all net us = Some es \<Longrightarrow> map fst es = us \<and> (\<forall>(u, r) \<in> set es. net u = Fulfilled (Some r) \<and> ok_status r)"
  by (induction us arbitrary: es) (auto split: promise.splits option.splits if_splits)

lemma cache_lookup_fold_put:
  "name \<in> set (caches_keys st) \<Longrightarrow>
   cache_lookup (fold (\<lambda>(u, r). cache_put name u r) es st) name q
     = (case map_of (rev es) q of Some r \<Rightarrow> Some r | None \<Rightarrow> cache_lookup st name q)"
proof (induction es arbitrary: st)
  case Nil
  then show ?case by simp
next
  case (Cons e es)
  obtain u r where e: "e = (u, r)" by (cases e)
  have "name \<in> set (caches_keys (cache_put name u r st))"
    using Cons.prems by (simp add: caches_keys_put)
  then show ?case
    using Cons.IH [of "cache_put name u r st"] Cons.prems e
    by (auto simp: cache_lookup_put map_add_def split: option.splits)
qed

text \<open>
  C7. After a successful install, for every path of the asset manifest a lookup of
  that path in the current store returns a response with a success status, the one
  the network gave for the path.
\<close>

theorem install_populates_manifest:
  assumes "install_handler cache_name net st = (Fulfilled (), st')"
    and "u \<in> set urlsToCache"
  shows "\<exists>r. cache_lookup st' cache_name u = Some r \<and> ok_status r \<and> net u = Fulfilled (Some r)"
proof -
  obtain es where es: "fetch_all net urlsToCache = Some es"
    and st': "st' = fold (\<lambda>(u, r). cache_put cache_name u r) es (caches_open cache_name st)"
    using assms(1) by (auto simp: install_handler_def cache_addAll_def split: option.splits)
  have ent: "map fst es = urlsToCache" "\<forall>(u, r) \<in> set es. net u = Fulfilled (Some r) \<and> ok_status r"
    using fetch_all_entries [OF es] by simp_all
  have "set (map fst es) = set urlsToCache"
    using ent(1) by simp
  then have "u \<in> fst ` set (rev es)"
    using assms(2) by simp
  then have "map_of (rev es) u \<noteq> None"
    by (simp add: map_of_eq_None_iff)
  then obtain r where r: "map_of (rev es) u = Some r"
    by blast
  have "(u, r) \<in> set es"
    using map_of_SomeD [OF r] by simp
  then have "net u = Fulfilled (Some r) \<and> ok_status r"
    using ent(2) by auto
  moreover have "cache_lookup st' cache_name u = Some r"
    using r by (simp add: st' cache_lookup_fold_put name_in_open)
  ultimately show ?thesis by blast
qed

theorem install_populates_manifest_witness:
  "install_handler CACHE_NAME online old_store
     = (Fulfilled (), snd (install_handler CACHE_NAME online old_store))
   \<and> ''/app.js'' \<in> set urlsToCache
   \<and> (\<exists>r. cache_lookup (snd (install_handler CACHE_NAME online old_store)) CACHE_NAME ''/app.js''
            = Some r
          \<and> ok_status r
          \<and> online ''/app.js'' = Fulfilled (Some r))"
proof -
  have i: "install_handler CACHE_NAME online old_store
             = (Fulfilled (), snd (install_handler CACHE_NAME online old_store))"
    by code_simp
  have u: "''/app.js'' \<in> set urlsToCache"
    by (simp add: urlsToCache_def)
  show ?thesis
    using i u install_populates_manifest [OF i u]
    by blast
qed

section \<open>Properties of the page controller\<close>

subsection \<open>What showing a page changes\<close>

lemma showPage_previousPage:
  "previousPage (showPage ids pageId s) = (if pageId \<noteq> ''viewer-page'' then pageId else previousPage s)"
  by (simp add: showPage_def Let_def)

lemma showPage_active:
  "active (showPage ids pageId s) = (if pageId \<in> set ids then [pageId] else [])"
  by (simp add: showPage_def Let_def)

lemma showPage_pdf_fields:
  "pdfDoc (showPage ids pageId s) = pdfDoc s"
  "currentPage (showPage ids pageId s) = currentPage s"
  "scale (showPage ids pageId s) = scale s"
  by (simp_all add: showPage_def Let_def)

subsection \<open>Closing a document\<close>

text \<open>
  C8 (as amended). After \<open>closeDocument\<close> the current page number and the zoom scale
  are back at their initial values and no document is loaded; the previous-page marker
  is not reset: it is what it was before the call, in both copies of the controller.
\<close>

theorem closeDocument_resets_pdf_state:
  "currentPage (closeDocument ids s) = currentPage (initial act)
   \<and> scale (closeDocument ids s) = scale (initial act)
   \<and> pdfDoc (closeDocument ids s) = pdfDoc (initial act)
   \<and> previousPage (closeDocument ids s) = previousPage s
   \<and> previousPage (closeDocument_part_000 ids n) = previousPage n"
  by (simp add: closeDocument_def closeDocument_part_000_def initial_def Let_def
        showPage_previousPage showPage_pdf_fields)

text \<open>
  The claim as written also has the previous-page marker back at its initial value
  \<open>home-page\<close>. It is not, once another page has been shown: after
  \<open>showPage('reference-page')\<close>, \<open>openDocument('docs/guide.pdf')\<close> and
  \<open>closeDocument()\<close> the marker is \<open>reference-page\<close>.
\<close>

theorem closeDocument_resets_all_counterexample:
  "\<not> (currentPage (closeDocument [''home-page'', ''viewer-page'']
           (session [''home-page'', ''viewer-page'']
              [ShowPage ''reference-page'', OpenDocument ''docs/guide.pdf'']
              (initial [''home-page''])))
        = currentPage (initial [''home-page''])
      \<and> scale (closeDocument [''home-page'', ''viewer-page'']
           (session [''home-page'', ''viewer-page'']
              [ShowPage ''reference-page'', OpenDocument ''docs/guide.pdf'']
              (initial [''home-page''])))
        = scale (initial [''home-page''])
      \<and> previousPage (closeDocument [''home-page'', ''viewer-page'']
           (session [''home-page'', ''viewer-page'']
              [ShowPage ''reference-page'', OpenDocument ''docs/guide.pdf'']
              (initial [''home-page''])))
        = previousPage (initial [''home-page'']))"
  by code_simp

subsection \<open>The previous page is never the viewer\<close>

lemma perform_previousPage:
  "previousPage s \<noteq> ''viewer-page'' \<Longrightarrow> previousPage (perform ids a s) \<noteq> ''viewer-page''"
  by (cases a)
     (simp_all add: showPage_previousPage openDocument_def loadPDF_resolved_def nextPage_def
        prevPage_def zoomIn_def zoomOut_def closeDocument_def Let_def split: option.splits)

lemma session_previousPage:
  "previousPage s \<noteq> ''viewer-page'' \<Longrightarrow> previousPage (session ids acts s) \<noteq> ''viewer-page''"
proof (induction acts arbitrary: s)
  case Nil
  then show ?case by (simp add: session_def)
next
  case (Cons a acts)
  have "session ids (a # acts) s = session ids acts (perform ids a s)"
    by (simp add: session_def)
  then show ?case
    using Cons.IH [OF perform_previousPage [OF Cons.prems]] by simp
qed

text \<open>
  C9. Starting from the initial state, after any sequence of operations the
  previous-page marker is not \<open>viewer-page\<close>, so the page \<open>closeDocument\<close> shows
  is never the viewer page.
\<close>

theorem previousPage_never_viewer:
  "previousPage (session ids acts (initial act)) \<noteq> ''viewer-page''
   \<and> ''viewer-page'' \<notin> set (active (closeDocument ids (session ids acts (initial act))))"
proof -
  have init: "previousPage (initial act) \<noteq> ''viewer-page''"
    by (simp add: initial_def)
  have inv: "previousPage (session ids acts (initial act)) \<noteq> ''viewer-page''"
    using init by (rule session_previousPage)
  then have "''viewer-page'' \<notin> set (active (closeDocument ids (session ids acts (initial act))))"
    by (simp add: closeDocument_def Let_def showPage_active)
  then show ?thesis
    using inv by simp
qed

subsection \<open>The zoom scale stays within its bounds\<close>

text \<open>
  The scale is a JavaScript number. Every value it takes is a multiple of the step
  0.25 between 0.5 and 3, and on such values the sums and differences of the code are
  exact, so the rational numbers model them without rounding.
\<close>

lemma perform_scale_grid:
  assumes "\<exists>k::int. 2 \<le> k \<and> k \<le> 12 \<and> scale s = of_int k / 4"
  shows "\<exists>k::int. 2 \<le> k \<and> k \<le> 12 \<and> scale (perform ids a s) = of_int k / 4"
proof -
  obtain k :: int where k: "2 \<le> k" "k \<le> 12" "scale s = of_int k / 4"
    using assms by blast
  have up: "scale s < MAX_SCALE \<Longrightarrow>
      \<exists>j::int. 2 \<le> j \<and> j \<le> 12 \<and> scale s + SCALE_STEP = of_int j / 4"
  proof -
    assume "scale s < MAX_SCALE"
    then have "k < 12" using k(3) by (simp add: MAX_SCALE_def)
    then have "2 \<le> k + 1 \<and> k + 1 \<le> 12 \<and> scale s + SCALE_STEP = of_int (k + 1) / 4"
      using k by (simp add: SCALE_STEP_def field_simps)
    then show ?thesis by blast
  qed
  have down: "scale s > MIN_SCALE \<Longrightarrow>
      \<exists>j::int. 2 \<le> j \<and> j \<le> 12 \<and> scale s - SCALE_STEP = of_int j / 4"
  proof -
    assume "scale s > MIN_SCALE"
    then have "2 < k" using k(3) by (simp add: MIN_SCALE_def)
    then have "2 \<le> k - 1 \<and> k - 1 \<le> 12 \<and> scale s - SCALE_STEP = of_int (k - 1) / 4"
      using k by (simp add: SCALE_STEP_def field_simps)
    then show ?thesis by blast
  qed
  have reset: "\<exists>j::int. 2 \<le> j \<and> j \<le> 12 \<and> (1.5 :: rat) = of_int j / 4"
    by (rule exI [of _ 6]) simp
  show ?thesis
  proof (cases a)
    case ZoomIn
    then show ?thesis using up assms by (simp add: zoomIn_def split: option.splits)
  next
    case ZoomOut
    then show ?thesis using down assms by (simp add: zoomOut_def split: option.splits)
  next
    case CloseDocument
    then show ?thesis using reset
      by (simp add: closeDocument_def Let_def showPage_pdf_fields)
  qed (use assms in \<open>simp_all add: showPage_pdf_fields openDocument_def loadPDF_resolved_def
         nextPage_def prevPage_def Let_def split: option.splits\<close>)
qed

lemma session_scale_grid:
  assumes "\<exists>k::int. 2 \<le> k \<and> k \<le> 12 \<and> scale s = of_int k / 4"
  shows "\<exists>k::int. 2 \<le> k \<and> k \<le> 12 \<and> scale (session ids acts s) = of_int k / 4"
  using assms
proof (induction acts arbitrary: s)
  case Nil
  then show ?case by (simp add: session_def)
next
  case (Cons a acts)
  have "session ids (a # acts) s = session ids acts (perform ids a s)"
    by (simp add: session_def)
  then show ?case
    using Cons.IH [OF perform_scale_grid [OF Cons.prems]] by simp
qed

text \<open>
  C10. Starting from the initial scale 1.5, after any sequence of operations the
  scale lies in the closed interval from \<open>MIN_SCALE\<close> to \<open>MAX_SCALE\<close> (and is a
  multiple of the step). \<open>zoomIn\<close> changes nothing at or above \<open>MAX_SCALE\<close>,
  \<open>zoomOut\<close> nothing at or below \<open>MIN_SCALE\<close>, and neither changes anything when
  no document is loaded.
\<close>

theorem scale_within_bounds:
  "MIN_SCALE \<le> scale (session ids acts (initial act))
   \<and> scale (session ids acts (initial act)) \<le> MAX_SCALE
   \<and> (\<exists>k::int. scale (session ids acts (initial act)) = of_int k * SCALE_STEP)
   \<and> (MAX_SCALE \<le> scale s \<longrightarrow> zoomIn s = s)
   \<and> (scale s \<le> MIN_SCALE \<longrightarrow> zoomOut s = s)
   \<and> (pdfDoc s = None \<longrightarrow> zoomIn s = s \<and> zoomOut s = s)"
proof -
  have "\<exists>k::int. 2 \<le> k \<and> k \<le> 12 \<and> scale (initial act) = of_int k / 4"
    by (rule exI [of _ 6]) (simp add: initial_def)
  then obtain k :: int where k: "2 \<le> k" "k \<le> 12"
      "scale (session ids acts (initial act)) = of_int k / 4"
    using session_scale_grid by blast
  have lo: "MIN_SCALE \<le> scale (session ids acts (initial act))"
    using k by (simp add: MIN_SCALE_def)
  have hi: "scale (session ids acts (initial act)) \<le> MAX_SCALE"
    using k by (simp add: MAX_SCALE_def)
  have grid: "\<exists>k::int. scale (session ids acts (initial act)) = of_int k * SCALE_STEP"
    using k(3) by (auto simp: SCALE_STEP_def)
  have noop: "(MAX_SCALE \<le> scale s \<longrightarrow> zoomIn s = s)
            \<and> (scale s \<le> MIN_SCALE \<longrightarrow> zoomOut s = s)
            \<and> (pdfDoc s = None \<longrightarrow> zoomIn s = s \<and> zoomOut s = s)"
    by (simp add: zoomIn_def zoomOut_def split: option.splits)
  show ?thesis
    using lo hi grid noop by blast
qed

theorem scale_within_bounds_witness:
  "MAX_SCALE \<le> scale (session [''home-page'', ''viewer-page'']
       [OpenDocument ''docs/guide.pdf'', PdfLoaded \<lparr>numPages = 3\<rparr>,
        ZoomIn, ZoomIn, ZoomIn, ZoomIn, ZoomIn, ZoomIn, ZoomIn] (initial [''home-page'']))
   \<and> zoomIn (session [''home-page'', ''viewer-page'']
       [OpenDocument ''docs/guide.pdf'', PdfLoaded \<lparr>numPages = 3\<rparr>,
        ZoomIn, ZoomIn, ZoomIn, ZoomIn, ZoomIn, ZoomIn, ZoomIn] (initial [''home-page'']))
      = session [''home-page'', ''viewer-page'']
       [OpenDocument ''docs/guide.pdf'', PdfLoaded \<lparr>numPages = 3\<rparr>,
        ZoomIn, ZoomIn, ZoomIn, ZoomIn, ZoomIn, ZoomIn, ZoomIn] (initial [''home-page''])
   \<and> scale (session [''home-page'', ''viewer-page'']
       [OpenDocument ''docs/guide.pdf'', PdfLoaded \<lparr>numPages = 3\<rparr>,
        ZoomOut, ZoomOut, ZoomOut, ZoomOut, ZoomOut] (initial [''home-page''])) \<le> MIN_SCALE
   \<and> zoomOut (session [''home-page'', ''viewer-page'']
       [OpenDocument ''docs/guide.pdf'', PdfLoaded \<lparr>numPages = 3\<rparr>,
        ZoomOut, ZoomOut, ZoomOut, ZoomOut, ZoomOut] (initial [''home-page'']))
      = session [''home-page'', ''viewer-page'']
       [OpenDocument ''docs/guide.pdf'', PdfLoaded \<lparr>numPages = 3\<rparr>,
        ZoomOut, ZoomOut, ZoomOut, ZoomOut, ZoomOut] (initial [''home-page''])
   \<and> pdfDoc (initial [''home-page'']) = None
   \<and> zoomIn (initial [''home-page'']) = initial [''home-page'']
   \<and> zoomOut (initial [''home-page'']) = initial [''home-page'']"
proof -
  let ?hi = "session [''home-page'', ''viewer-page'']
       [OpenDocument ''docs/guide.pdf'', PdfLoaded \<lparr>numPages = 3\<rparr>,
        ZoomIn, ZoomIn, ZoomIn, ZoomIn, ZoomIn, ZoomIn, ZoomIn] (initial [''home-page''])"
  let ?lo = "session [''home-page'', ''viewer-page'']
       [OpenDocument ''docs/guide.pdf'', PdfLoaded \<lparr>numPages = 3\<rparr>,
        ZoomOut, ZoomOut, ZoomOut, ZoomOut, ZoomOut] (initial [''home-page''])"
  have h: "MAX_SCALE \<le> scale ?hi"
    by code_simp
  have l: "scale ?lo \<le> MIN_SCALE"
    by code_simp
  have n: "pdfDoc (initial [''home-page'']) = None"
    by code_simp
  show ?thesis
    using h l n
      scale_within_bounds [of "[]" "[]" "[]" ?hi]
      scale_within_bounds [of "[]" "[]" "[]" ?lo]
      scale_within_bounds [of "[]" "[]" "[]" "initial [''home-page'']"]
    by simp
qed

end
